theory Spec2Isabelle
  imports Main
begin

section \<open>Values, errors and settled promises\<close>

text \<open>
  The queue of \<^verbatim>\<open>AsyncQueue\<close> never looks inside the value a task resolves with or the
  error it rejects with, apart from the test \<^verbatim>\<open>error instanceof QueueClearError\<close>.
  Values are therefore \<^verbatim>\<open>undefined\<close> or an opaque value, and errors are the
  queue's own \<^verbatim>\<open>QueueClearError\<close> or an opaque task error. The class
  \<^verbatim>\<open>QueueClearError\<close> is not exported by the module, so the work of a task can only
  fail with a task error: that is the type \<open>task_result\<close>.
\<close>

datatype jsval = Undefined | Val nat

datatype error = QueueClearError | TaskError nat

datatype outcome = Fulfilled jsval | Rejected error

datatype task_result = Resolves jsval | Fails nat

fun outcome_of :: "task_result \<Rightarrow> outcome" where
  "outcome_of (Resolves v) = Fulfilled v"
| "outcome_of (Fails e) = Rejected (TaskError e)"

section \<open>The queue object\<close>

text \<open>
  An entry of \<^verbatim>\<open>this.queue\<close> is \<^verbatim>\<open>{ task, priority, resolve, reject }\<close>. A task is
  named by a number; \<^verbatim>\<open>resolve\<close> and \<^verbatim>\<open>reject\<close> settle the promise that \<^verbatim>\<open>add\<close>
  created for that task, so they are determined by the task's name. The priority is
  \<^verbatim>\<open>options.priority\<close> as it was passed: \<open>None\<close> is \<^verbatim>\<open>undefined\<close>.
\<close>

record entry =
  task :: nat
  priority :: "int option"

record options =
  opt_concurrency :: "int option"
  opt_autoStart :: "bool option"

text \<open>
  The first six fields are the fields of the class. The other seven record what happens
  around the object: the tasks whose work is executing (called and not yet settled), the
  order in which \<^verbatim>\<open>task()\<close> was called, the promises of \<^verbatim>\<open>add\<close> that are settled and
  whose \<^verbatim>\<open>.catch(...).finally(...)\<close> reaction has not run yet (in the order of their
  settlement, with the outcome), the outcome of every handle returned by \<^verbatim>\<open>add\<close> that
  has settled, and every call of an \<^verbatim>\<open>onEmpty\<close> callback.

  The documented task is an async function: calling it returns a promise, which settles
  later. Nothing in the class checks that. \<open>throwing\<close> says what calling a task does
  when it is not one: a task it maps to an error throws that error from the call
  \<^verbatim>\<open>task()\<close> itself (a plain function that throws, or one that returns no promise, so that
  \<^verbatim>\<open>.then\<close> throws a TypeError); every other task returns a promise. \<open>thrown\<close> lists
  the exceptions that left \<^verbatim>\<open>_process\<close>.
\<close>

record async_queue =
  concurrency :: int
  autoStart :: bool
  queue :: "entry list"
  running :: int
  paused :: bool
  emptyCallbacks :: "nat list"
  executing :: "nat list"
  started :: "nat list"
  jobs :: "(nat \<times> outcome) list"
  handles :: "(nat \<times> outcome) list"
  notified :: "nat list"
  throwing :: "nat \<rightharpoonup> nat"
  thrown :: "nat list"

text \<open>
  \<^verbatim>\<open>this.concurrency = options.concurrency || 1\<close>: a missing or zero value is falsy
  and gives 1, every other number is kept.
  \<^verbatim>\<open>this.autoStart = options.autoStart !== false\<close>.
\<close>

definition constructor :: "options \<Rightarrow> async_queue" where
  "constructor opts =
     \<lparr> concurrency = (case opt_concurrency opts of
                         None \<Rightarrow> 1
                       | Some c \<Rightarrow> if c = 0 then 1 else c),
       autoStart = (opt_autoStart opts \<noteq> Some False),
       queue = [],
       running = 0,
       paused = False,
       emptyCallbacks = [],
       executing = [],
       started = [],
       jobs = [],
       handles = [],
       notified = [],
       throwing = Map.empty,
       thrown = [] \<rparr>"

text \<open>
  The comparison \<^verbatim>\<open>a >= b\<close> of two priorities: \<^verbatim>\<open>undefined\<close> converts to NaN, and
  every comparison with NaN is false.
\<close>

fun js_ge :: "int option \<Rightarrow> int option \<Rightarrow> bool" where
  "js_ge (Some a) (Some b) = (b \<le> a)"
| "js_ge _ _ = False"

text \<open>
  The loop of \<^verbatim>\<open>_insertWithPriority\<close>:
  \<^verbatim>\<open>while (i >= 0 && q[i].priority >= q[i + 1].priority) { swap q[i], q[i + 1]; i-- }\<close>.
\<close>

function insert_loop :: "entry list \<Rightarrow> int \<Rightarrow> entry list" where
  "insert_loop q i =
     (if 0 \<le> i \<and> js_ge (priority (q ! nat i)) (priority (q ! nat (i + 1)))
      then insert_loop (q[nat i := q ! nat (i + 1), nat (i + 1) := q ! nat i]) (i - 1)
      else q)"
  by pat_completeness auto
termination
  by (relation "measure (\<lambda>(q, i). nat (i + 1))") auto

declare insert_loop.simps [simp del]

definition insertWithPriority :: "entry \<Rightarrow> async_queue \<Rightarrow> async_queue" where
  "insertWithPriority e s =
     (let q = queue s @ [e]
      in s\<lparr>queue := insert_loop q (int (length q) - 2)\<rparr>)"

text \<open>
  \<^verbatim>\<open>_process\<close>: nothing when the counter has reached the limit, the queue is paused or
  nothing is pending; otherwise the last entry is popped, the counter incremented and the
  task called. There is no \<^verbatim>\<open>try\<close> around \<^verbatim>\<open>task().then(resolve).catch(reject)\<close>: when
  the call throws, the exception leaves \<^verbatim>\<open>_process\<close> with the entry popped and the
  counter incremented, and no promise of the task exists that could settle.
  \<open>process_throws\<close> is the exception that a call of \<^verbatim>\<open>_process\<close> throws, if any.
\<close>

definition process_throws :: "async_queue \<Rightarrow> nat option" where
  "process_throws s =
     (if concurrency s \<le> running s \<or> paused s \<or> queue s = [] then None
      else throwing s (task (last (queue s))))"

definition process :: "async_queue \<Rightarrow> async_queue" where
  "process s =
     (if concurrency s \<le> running s \<or> paused s \<or> queue s = [] then s
      else (case throwing s (task (last (queue s))) of
              None \<Rightarrow>
                s\<lparr>queue := butlast (queue s),
                  running := running s + 1,
                  executing := executing s @ [task (last (queue s))],
                  started := started s @ [task (last (queue s))]\<rparr>
            | Some x \<Rightarrow>
                s\<lparr>queue := butlast (queue s),
                  running := running s + 1,
                  started := started s @ [task (last (queue s))],
                  thrown := thrown s @ [x]\<rparr>))"

definition checkEmpty :: "async_queue \<Rightarrow> async_queue" where
  "checkEmpty s =
     (if queue s = [] \<and> running s = 0
      then s\<lparr>notified := notified s @ emptyCallbacks s\<rparr>
      else s)"

text \<open>
  \<^verbatim>\<open>add\<close> creates the promise and its reactions, inserts the entry and, with
  \<^verbatim>\<open>autoStart\<close>, calls \<^verbatim>\<open>_process\<close>. The reactions run later, in \<open>tick\<close>. An
  exception that leaves \<^verbatim>\<open>_process\<close> leaves \<^verbatim>\<open>add\<close> and \<^verbatim>\<open>start\<close> as well, to their
  caller: the call of \<^verbatim>\<open>_process\<close> is the last thing either does to the queue.
\<close>

definition add :: "nat \<Rightarrow> int option \<Rightarrow> async_queue \<Rightarrow> async_queue" where
  "add t p s =
     (let s1 = insertWithPriority \<lparr>task = t, priority = p\<rparr> s
      in if autoStart s1 then process s1 else s1)"

definition start :: "async_queue \<Rightarrow> async_queue" where
  "start s = process (s\<lparr>paused := False\<rparr>)"

definition pause :: "async_queue \<Rightarrow> async_queue" where
  "pause s = s\<lparr>paused := True\<rparr>"

text \<open>
  \<^verbatim>\<open>clear\<close> calls \<^verbatim>\<open>reject(new QueueClearError())\<close> for every entry, from index 0 on,
  and empties the list. Rejecting a promise runs none of its reactions at once: they are
  queued.
\<close>

definition clear :: "async_queue \<Rightarrow> async_queue" where
  "clear s =
     s\<lparr>jobs := jobs s @ map (\<lambda>e. (task e, Rejected QueueClearError)) (queue s),
       queue := []\<rparr>"

definition onEmpty :: "nat \<Rightarrow> async_queue \<Rightarrow> async_queue" where
  "onEmpty cb s = s\<lparr>emptyCallbacks := emptyCallbacks s @ [cb]\<rparr>"


definition pending :: "async_queue \<Rightarrow> int" where
  "pending s = running s"

definition isPaused :: "async_queue \<Rightarrow> bool" where
  "isPaused s = paused s"

section \<open>Settlement\<close>

text \<open>
  The work of an executing task settles: through \<^verbatim>\<open>task().then(resolve).catch(reject)\<close>
  the promise of \<^verbatim>\<open>add\<close> is fulfilled with the value or rejected with the error.
\<close>

definition settle :: "nat \<Rightarrow> task_result \<Rightarrow> async_queue \<Rightarrow> async_queue" where
  "settle t r s =
     (if t \<in> set (executing s)
      then s\<lparr>executing := remove1 t (executing s), jobs := jobs s @ [(t, outcome_of r)]\<rparr>
      else s)"

text \<open>
  The reaction \<^verbatim>\<open>.catch((error) => { if (!(error instanceof QueueClearError)) throw error; })\<close>:
  a fulfilment passes, a \<^verbatim>\<open>QueueClearError\<close> is swallowed (the handler returns
  \<^verbatim>\<open>undefined\<close>), every other error is thrown again.
\<close>

fun catch_handler :: "outcome \<Rightarrow> outcome" where
  "catch_handler (Fulfilled v) = Fulfilled v"
| "catch_handler (Rejected QueueClearError) = Fulfilled Undefined"
| "catch_handler (Rejected (TaskError e)) = Rejected (TaskError e)"

text \<open>
  The reactions of the oldest settled promise run: the \<^verbatim>\<open>catch\<close> above, then
  \<^verbatim>\<open>.finally(() => { this.running--; this._checkEmpty(); this._process(); })\<close>, after
  which the handle returned by \<^verbatim>\<open>add\<close> settles with the outcome of the \<^verbatim>\<open>catch\<close>. When
  the callback of \<^verbatim>\<open>finally\<close> throws, which it does when its \<^verbatim>\<open>_process\<close> throws, the
  handle is rejected with that exception instead.
\<close>

definition tick :: "async_queue \<Rightarrow> async_queue" where
  "tick s =
     (case jobs s of
        [] \<Rightarrow> s
      | (t, out) # js \<Rightarrow>
          (let s0 = checkEmpty (s\<lparr>jobs := js, running := running s - 1\<rparr>);
               s1 = process s0
           in s1\<lparr>handles := handles s1 @
                  [(t, case process_throws s0 of
                         None \<Rightarrow> catch_handler out
                       | Some x \<Rightarrow> Rejected (TaskError x))]\<rparr>))"

section \<open>Executions\<close>

text \<open>
  \<open>Add t p\<close> is \<^verbatim>\<open>add(t, { priority: p })\<close>, or \<^verbatim>\<open>add(t)\<close> when \<open>p\<close> is \<open>None\<close>.
  \<open>AddThrowing t p x\<close> is the same call for a task \<open>t\<close> that throws \<open>x\<close> when it is
  called. A number names one function, with one behaviour: a task submitted once with
  \<open>AddThrowing\<close> throws at every call.
\<close>

datatype event =
    Add nat "int option"
  | AddThrowing nat "int option" nat
  | Start
  | Pause
  | Clear
  | OnEmpty nat
  | Settle nat task_result
  | Tick

fun step :: "event \<Rightarrow> async_queue \<Rightarrow> async_queue" where
  "step (Add t p) s = add t p s"
| "step (AddThrowing t p x) s = add t p (s\<lparr>throwing := (throwing s)(t \<mapsto> x)\<rparr>)"
| "step Start s = start s"
| "step Pause s = pause s"
| "step Clear s = clear s"
| "step (OnEmpty cb) s = onEmpty cb s"
| "step (Settle t r) s = settle t r s"
| "step Tick s = tick s"

definition run :: "event list \<Rightarrow> async_queue \<Rightarrow> async_queue" where
  "run evs s = fold step evs s"

text \<open>
  \<^verbatim>\<open>_process\<close> takes entries with \<^verbatim>\<open>this.queue.pop()\<close>: pending tasks leave the list
  from its end.
\<close>

definition dequeue_order :: "async_queue \<Rightarrow> nat list" where
  "dequeue_order s = map task (rev (queue s))"

text \<open>The events that neither submit a task nor clear the pending list.\<close>

fun keeps_pending :: "event \<Rightarrow> bool" where
  "keeps_pending (Add t p) = False"
| "keeps_pending (AddThrowing t p x) = False"
| "keeps_pending Clear = False"
| "keeps_pending _ = True"

text \<open>
  All the reactions that are queued run, oldest first, as the job queue of the engine
  does once the running script returns. A reaction queues no further reaction, so one
  \<open>tick\<close> for each queued reaction empties the queue.
\<close>

fun ticks :: "nat \<Rightarrow> async_queue \<Rightarrow> async_queue" where
  "ticks 0 s = s"
| "ticks (Suc n) s = ticks n (tick s)"

definition drain :: "async_queue \<Rightarrow> async_queue" where
  "drain s = ticks (length (jobs s)) s"


text \<open>
  A pending list in which every priority is a number and no entry comes before one of
  lower priority, and the events that submit no task without a numeric priority.
\<close>

definition numeric_sorted :: "entry list \<Rightarrow> bool" where
  "numeric_sorted q =
     (list_all (\<lambda>x. priority x \<noteq> None) q \<and>
      sorted_wrt (\<lambda>a b. js_ge (priority b) (priority a)) q)"

fun numeric_event :: "event \<Rightarrow> bool" where
  "numeric_event (Add t p) = (p \<noteq> None)"
| "numeric_event (AddThrowing t p x) = (p \<noteq> None)"
| "numeric_event _ = True"

section \<open>The pending list after an insertion\<close>

lemma insert_loop_snoc:
  "insert_loop (xs @ e # ys) (int (length xs) - 1) =
     rev (dropWhile (\<lambda>x. js_ge (priority x) (priority e)) (rev xs)) @ e #
     rev (takeWhile (\<lambda>x. js_ge (priority x) (priority e)) (rev xs)) @ ys"
proof (induction xs arbitrary: ys rule: rev_induct)
  case Nil
  show ?case by (subst insert_loop.simps) simp
next
  case (snoc x xs)
  have upd: "(xs @ x # e # ys)[length xs := e, Suc (length xs) := x] = xs @ e # x # ys"
    by (simp add: list_update_append)
  show ?case
  proof (cases "js_ge (priority x) (priority e)")
    case True
    have "insert_loop ((xs @ [x]) @ e # ys) (int (length (xs @ [x])) - 1) =
          insert_loop (xs @ e # x # ys) (int (length xs) - 1)"
      using True upd by (subst insert_loop.simps) (simp add: nth_append nat_add_distrib)
    also have "\<dots> = rev (dropWhile (\<lambda>x. js_ge (priority x) (priority e)) (rev xs)) @ e #
        rev (takeWhile (\<lambda>x. js_ge (priority x) (priority e)) (rev xs)) @ x # ys"
      by (rule snoc.IH)
    finally show ?thesis using True by simp
  next
    case False
    have "insert_loop ((xs @ [x]) @ e # ys) (int (length (xs @ [x])) - 1) = (xs @ [x]) @ e # ys"
      using False by (subst insert_loop.simps) (simp add: nth_append nat_add_distrib)
    then show ?thesis using False by simp
  qed
qed

lemma queue_insertWithPriority:
  "queue (insertWithPriority e s) =
     rev (dropWhile (\<lambda>x. js_ge (priority x) (priority e)) (rev (queue s))) @ e #
     rev (takeWhile (\<lambda>x. js_ge (priority x) (priority e)) (rev (queue s)))"
  using insert_loop_snoc [of "queue s" e "[]"]
  by (simp add: insertWithPriority_def Let_def)

lemma rev_queue_insertWithPriority:
  "rev (queue (insertWithPriority e s)) =
     takeWhile (\<lambda>x. js_ge (priority x) (priority e)) (rev (queue s)) @ e #
     dropWhile (\<lambda>x. js_ge (priority x) (priority e)) (rev (queue s))"
  by (simp add: queue_insertWithPriority)

lemma insertWithPriority_eq:
  "insertWithPriority e s = s\<lparr>queue := queue (insertWithPriority e s)\<rparr>"
  by (simp add: insertWithPriority_def Let_def)

lemma add_saturated:
  "concurrency s \<le> running s \<Longrightarrow> add t p s = insertWithPriority \<lparr>task = t, priority = p\<rparr> s"
  by (simp add: add_def Let_def process_def insertWithPriority_def)

lemma takeWhile_middle:
  assumes "\<forall>x\<in>set M. P x"
  shows "takeWhile P (takeWhile P R @ M @ dropWhile P R) = takeWhile P R @ M"
    and "dropWhile P (takeWhile P R @ M @ dropWhile P R) = dropWhile P R"
proof -
  have a: "\<forall>x\<in>set (takeWhile P R @ M). P x"
    using assms by (auto dest: set_takeWhileD)
  have b: "takeWhile P (dropWhile P R) = []"
    by (induction R) auto
  show "takeWhile P (takeWhile P R @ M @ dropWhile P R) = takeWhile P R @ M"
    using a b takeWhile_append2 [of "takeWhile P R @ M" P "dropWhile P R"] by simp
  have c: "dropWhile P (dropWhile P R) = dropWhile P R"
    by (induction R) auto
  show "dropWhile P (takeWhile P R @ M @ dropWhile P R) = dropWhile P R"
    using a c dropWhile_append2 [of "takeWhile P R @ M" P "dropWhile P R"] by simp
qed

lemma run_append: "run (xs @ ys) s = run ys (run xs s)"
  by (simp add: run_def)

lemma run_adds_saturated:
  assumes "concurrency s \<le> running s"
  shows "run (map (\<lambda>t. Add t (Some p)) ts) s =
     s\<lparr>queue := rev (takeWhile (\<lambda>x. js_ge (priority x) (Some p)) (rev (queue s)) @
                       map (\<lambda>t. \<lparr>task = t, priority = Some p\<rparr>) ts @
                       dropWhile (\<lambda>x. js_ge (priority x) (Some p)) (rev (queue s)))\<rparr>"
proof (induction ts rule: rev_induct)
  case Nil
  show ?case by (simp add: run_def flip: rev_append)
next
  case (snoc t ts)
  let ?P = "\<lambda>x. js_ge (priority x) (Some p)"
  let ?M = "map (\<lambda>t. \<lparr>task = t, priority = Some p\<rparr>) ts"
  let ?s1 = "run (map (\<lambda>t. Add t (Some p)) ts) s"
  have all: "\<forall>x\<in>set ?M. ?P x" by simp
  have sat: "concurrency ?s1 \<le> running ?s1"
    using assms by (simp add: snoc.IH)
  have q1: "rev (queue ?s1) = takeWhile ?P (rev (queue s)) @ ?M @ dropWhile ?P (rev (queue s))"
    by (simp add: snoc.IH)
  have "run (map (\<lambda>t. Add t (Some p)) (ts @ [t])) s = add t (Some p) ?s1"
    by (simp add: run_def)
  also have "\<dots> = insertWithPriority \<lparr>task = t, priority = Some p\<rparr> ?s1"
    using sat by (rule add_saturated)
  also have "\<dots> = ?s1\<lparr>queue := queue (insertWithPriority \<lparr>task = t, priority = Some p\<rparr> ?s1)\<rparr>"
    by (rule insertWithPriority_eq)
  also have "queue (insertWithPriority \<lparr>task = t, priority = Some p\<rparr> ?s1) =
      rev (rev (queue (insertWithPriority \<lparr>task = t, priority = Some p\<rparr> ?s1)))"
    by simp
  also have "rev (queue (insertWithPriority \<lparr>task = t, priority = Some p\<rparr> ?s1)) =
      takeWhile ?P (rev (queue s)) @ (?M @ [\<lparr>task = t, priority = Some p\<rparr>]) @ dropWhile ?P (rev (queue s))"
    unfolding rev_queue_insertWithPriority q1
    using takeWhile_middle [OF all, of "rev (queue s)"] by simp
  finally show ?case by (simp add: snoc.IH)
qed

section \<open>The order in which pending tasks start\<close>

lemma process_cases:
  "process s = s \<or>
   (queue s \<noteq> [] \<and> queue (process s) = butlast (queue s) \<and>
    started (process s) = started s @ [task (last (queue s))])"
  by (simp add: process_def split: option.split)

lemma step_keeps_pending:
  assumes "keeps_pending ev"
  shows "(queue (step ev s) = queue s \<and> started (step ev s) = started s) \<or>
         (queue s \<noteq> [] \<and> queue (step ev s) = butlast (queue s) \<and>
          started (step ev s) = started s @ [task (last (queue s))])"
proof (cases ev)
  case (Add t p)
  with assms show ?thesis by simp
next
  case (AddThrowing t p x)
  with assms show ?thesis by simp
next
  case Start
  show ?thesis
    using process_cases [of "s\<lparr>paused := False\<rparr>"] by (auto simp: Start start_def)
next
  case Pause
  show ?thesis by (simp add: Pause pause_def)
next
  case Clear
  with assms show ?thesis by simp
next
  case (OnEmpty cb)
  show ?thesis by (simp add: OnEmpty onEmpty_def)
next
  case (Settle t r)
  show ?thesis by (simp add: Settle settle_def)
next
  case Tick
  show ?thesis
  proof (cases "jobs s")
    case Nil
    then show ?thesis by (simp add: Tick tick_def)
  next
    case (Cons j js)
    obtain t out where j: "j = (t, out)" by (cases j)
    let ?s1 = "checkEmpty (s\<lparr>jobs := js, running := running s - 1\<rparr>)"
    have q1: "queue ?s1 = queue s" "started ?s1 = started s"
      by (simp_all add: checkEmpty_def)
    have "queue (tick s) = queue (process ?s1)" "started (tick s) = started (process ?s1)"
      by (simp_all add: tick_def Cons j Let_def)
    then show ?thesis
      using process_cases [of ?s1] q1 by (auto simp: Tick)
  qed
qed

lemma run_keeps_pending:
  assumes "list_all keeps_pending evs"
  shows "\<exists>k\<le>length (queue s).
           queue (run evs s) = take (length (queue s) - k) (queue s) \<and>
           started (run evs s) = started s @ take k (dequeue_order s)"
  using assms
proof (induction evs arbitrary: s)
  case Nil
  show ?case by (rule exI [of _ 0]) (simp add: run_def)
next
  case (Cons ev evs)
  from Cons.prems have kp: "keeps_pending ev" and rest: "list_all keeps_pending evs"
    by simp_all
  have r: "run (ev # evs) s = run evs (step ev s)"
    by (simp add: run_def)
  from Cons.IH [OF rest, of "step ev s"] obtain k where
    k: "k \<le> length (queue (step ev s))"
       "queue (run evs (step ev s)) = take (length (queue (step ev s)) - k) (queue (step ev s))"
       "started (run evs (step ev s)) = started (step ev s) @ take k (dequeue_order (step ev s))"
    by blast
  from step_keeps_pending [OF kp, of s] show ?case
  proof
    assume same: "queue (step ev s) = queue s \<and> started (step ev s) = started s"
    show ?thesis
      using k same by (intro exI [of _ k]) (simp add: r dequeue_order_def)
  next
    assume pop: "queue s \<noteq> [] \<and> queue (step ev s) = butlast (queue s) \<and>
          started (step ev s) = started s @ [task (last (queue s))]"
    then obtain q x where q: "queue s = q @ [x]"
      by (metis append_butlast_last_id)
    with pop have s1: "queue (step ev s) = q" "started (step ev s) = started s @ [task x]"
      by simp_all
    show ?thesis
      using k by (intro exI [of _ "Suc k"]) (simp add: r s1 q dequeue_order_def)
  qed
qed

section \<open>Evaluation of concrete executions\<close>

lemmas model_defs = run_def constructor_def add_def insertWithPriority_def insert_loop.simps
  process_def process_throws_def clear_def tick_def checkEmpty_def settle_def start_def pause_def onEmpty_def
  dequeue_order_def

lemma length_takeWhile_dropWhile:
  "length (takeWhile P xs) + length (dropWhile P xs) = length xs"
  by (induction xs) auto

text \<open>
  Tasks submitted one after the other with the same numeric priority, while the counter
  has reached the limit, stand next to each other in the order in which pending tasks
  leave the list, in their submission order; until the next submission or \<^verbatim>\<open>clear()\<close>
  the tasks started are a prefix of that order.
\<close>

lemma consecutive_equal_priority_fifo:
  assumes sat: "concurrency s \<le> running s"
    and evs: "list_all keeps_pending evs"
  shows "dequeue_order (run (map (\<lambda>t. Add t (Some p)) ts) s) =
           map task (takeWhile (\<lambda>x. js_ge (priority x) (Some p)) (rev (queue s))) @ ts @
           map task (dropWhile (\<lambda>x. js_ge (priority x) (Some p)) (rev (queue s))) \<and>
         started (run (map (\<lambda>t. Add t (Some p)) ts) s) = started s \<and>
         started (run evs (run (map (\<lambda>t. Add t (Some p)) ts) s)) =
           started s @
           take (length (queue s) + length ts -
                 length (queue (run evs (run (map (\<lambda>t. Add t (Some p)) ts) s))))
             (map task (takeWhile (\<lambda>x. js_ge (priority x) (Some p)) (rev (queue s))) @ ts @
              map task (dropWhile (\<lambda>x. js_ge (priority x) (Some p)) (rev (queue s))))"
proof -
  let ?s1 = "run (map (\<lambda>t. Add t (Some p)) ts) s"
  let ?P = "\<lambda>x. js_ge (priority x) (Some p)"
  let ?order = "map task (takeWhile ?P (rev (queue s))) @ ts @ map task (dropWhile ?P (rev (queue s)))"
  have s1: "?s1 = s\<lparr>queue := rev (takeWhile ?P (rev (queue s)) @
                       map (\<lambda>t. \<lparr>task = t, priority = Some p\<rparr>) ts @
                       dropWhile ?P (rev (queue s)))\<rparr>"
    using sat by (rule run_adds_saturated)
  have ord: "dequeue_order ?s1 = ?order"
    by (simp add: s1 dequeue_order_def comp_def)
  have st: "started ?s1 = started s"
    by (simp add: s1)
  have "length (takeWhile ?P (rev (queue s))) + length (dropWhile ?P (rev (queue s))) =
        length (queue s)"
    by (simp add: length_takeWhile_dropWhile)
  then have len: "length (queue ?s1) = length (queue s) + length ts"
    by (simp add: s1)
  from run_keeps_pending [OF evs, of ?s1] obtain k where
    k: "k \<le> length (queue ?s1)"
       "queue (run evs ?s1) = take (length (queue ?s1) - k) (queue ?s1)"
       "started (run evs ?s1) = started ?s1 @ take k (dequeue_order ?s1)"
    by blast
  have "length (queue (run evs ?s1)) = length (queue ?s1) - k"
    by (simp add: k(2))
  then have "k = length (queue s) + length ts - length (queue (run evs ?s1))"
    using k(1) len by linarith
  then have "started (run evs ?s1) = started s @
      take (length (queue s) + length ts - length (queue (run evs ?s1))) ?order"
    using k(3) st ord by simp
  with ord st show ?thesis by blast
qed

section \<open>Reactions, and the pending list cleared\<close>

lemma process_frame [simp]:
  "jobs (process s) = jobs s"
  "handles (process s) = handles s"
  "notified (process s) = notified s"
  "paused (process s) = paused s"
  "concurrency (process s) = concurrency s"
  "autoStart (process s) = autoStart s"
  "emptyCallbacks (process s) = emptyCallbacks s"
  "throwing (process s) = throwing s"
  by (simp_all add: process_def split: option.split)

lemma checkEmpty_frame [simp]:
  "jobs (checkEmpty s) = jobs s"
  "handles (checkEmpty s) = handles s"
  "queue (checkEmpty s) = queue s"
  "running (checkEmpty s) = running s"
  "paused (checkEmpty s) = paused s"
  "concurrency (checkEmpty s) = concurrency s"
  "autoStart (checkEmpty s) = autoStart s"
  "emptyCallbacks (checkEmpty s) = emptyCallbacks s"
  "executing (checkEmpty s) = executing s"
  "started (checkEmpty s) = started s"
  "throwing (checkEmpty s) = throwing s"
  "thrown (checkEmpty s) = thrown s"
  by (simp_all add: checkEmpty_def)

lemma insertWithPriority_frame [simp]:
  "jobs (insertWithPriority e s) = jobs s"
  "handles (insertWithPriority e s) = handles s"
  "notified (insertWithPriority e s) = notified s"
  "running (insertWithPriority e s) = running s"
  "paused (insertWithPriority e s) = paused s"
  "concurrency (insertWithPriority e s) = concurrency s"
  "autoStart (insertWithPriority e s) = autoStart s"
  "emptyCallbacks (insertWithPriority e s) = emptyCallbacks s"
  "executing (insertWithPriority e s) = executing s"
  "started (insertWithPriority e s) = started s"
  "throwing (insertWithPriority e s) = throwing s"
  "thrown (insertWithPriority e s) = thrown s"
  by (simp_all add: insertWithPriority_def Let_def)


lemma tick_Nil: "jobs s = [] \<Longrightarrow> tick s = s"
  by (simp add: tick_def)

lemma process_throws_empty: "queue s = [] \<Longrightarrow> process_throws s = None"
  by (simp add: process_throws_def)

lemma tick_Cons:
  "jobs s = (t, out) # js \<Longrightarrow>
   tick s = (process (checkEmpty (s\<lparr>jobs := js, running := running s - 1\<rparr>)))
              \<lparr>handles := handles s @
                 [(t, case process_throws (checkEmpty (s\<lparr>jobs := js, running := running s - 1\<rparr>)) of
                        None \<Rightarrow> catch_handler out
                      | Some x \<Rightarrow> Rejected (TaskError x))]\<rparr>"
  by (simp add: tick_def Let_def)











lemma clear_fields:
  "queue (clear s) = []"
  "jobs (clear s) = jobs s @ map (\<lambda>e. (task e, Rejected QueueClearError)) (queue s)"
  "executing (clear s) = executing s"
  "started (clear s) = started s"
  "running (clear s) = running s"
  "paused (clear s) = paused s"
  "handles (clear s) = handles s"
  "notified (clear s) = notified s"
  by (simp_all add: clear_def)



section \<open>The handle of a cleared task\<close>






section \<open>The queue's error never reaches a handle\<close>



section \<open>Calling start twice\<close>

text \<open>
  Against claim C9. A queue with limit 2 that does not start tasks by itself holds two
  pending tasks. The first \<^verbatim>\<open>start()\<close> starts one of them, the second \<^verbatim>\<open>start()\<close> the
  other: the state after two calls is not the state after one.
\<close>

theorem start_twice_counterexample:
  "start (start (run [Add 0 (Some 0), Add 1 (Some 0)]
      (constructor \<lparr>opt_concurrency = Some 2, opt_autoStart = Some False\<rparr>))) \<noteq>
   start (run [Add 0 (Some 0), Add 1 (Some 0)]
      (constructor \<lparr>opt_concurrency = Some 2, opt_autoStart = Some False\<rparr>)) \<and>
   executing (start (run [Add 0 (Some 0), Add 1 (Some 0)]
      (constructor \<lparr>opt_concurrency = Some 2, opt_autoStart = Some False\<rparr>))) = [0] \<and>
   executing (start (start (run [Add 0 (Some 0), Add 1 (Some 0)]
      (constructor \<lparr>opt_concurrency = Some 2, opt_autoStart = Some False\<rparr>)))) = [0, 1]"
  by (simp add: model_defs)

lemma process_fixed:
  "process s = s \<longleftrightarrow> concurrency s \<le> running s \<or> paused s \<or> queue s = []"
proof
  assume eq: "process s = s"
  show "concurrency s \<le> running s \<or> paused s \<or> queue s = []"
  proof (rule ccontr)
    assume "\<not> (concurrency s \<le> running s \<or> paused s \<or> queue s = [])"
    then have "running (process s) = running s + 1"
      by (simp add: process_def split: option.split)
    with eq show False by simp
  qed
next
  assume "concurrency s \<le> running s \<or> paused s \<or> queue s = []"
  then show "process s = s" by (simp add: process_def)
qed

text \<open>
  Claim C9, amended. \<^verbatim>\<open>start()\<close> leaves the queue not paused, and a second call
  leaves that flag as it is. A second call is one more call of \<^verbatim>\<open>_process\<close>, which
  starts at most one task: it changes nothing exactly when, after the first call, the
  counter of running tasks has reached the limit or nothing is pending.
\<close>

theorem start_twice:
  "\<not> paused (start s) \<and> paused (start (start s)) = paused (start s) \<and>
   start (start s) = process (start s) \<and>
   (start (start s) = start s \<longleftrightarrow> concurrency s \<le> running (start s) \<or> queue (start s) = [])"
proof -
  have p: "\<not> paused (start s)"
    by (simp add: start_def)
  then have "(start s)\<lparr>paused := False\<rparr> = start s"
    by simp
  then have ss: "start (start s) = process (start s)"
    by (simp add: start_def [of "start s"])
  have c: "concurrency (start s) = concurrency s"
    by (simp add: start_def)
  from process_fixed [of "start s"] p c
  have "start (start s) = start s \<longleftrightarrow> concurrency s \<le> running (start s) \<or> queue (start s) = []"
    by (simp add: ss)
  with p ss show ?thesis by simp
qed

text \<open>With limit 1 the first call saturates the queue, and the second changes nothing.\<close>

theorem start_twice_witness:
  "start (start (run [Add 0 (Some 0), Add 1 (Some 0)]
      (constructor \<lparr>opt_concurrency = Some 1, opt_autoStart = Some False\<rparr>))) =
   start (run [Add 0 (Some 0), Add 1 (Some 0)]
      (constructor \<lparr>opt_concurrency = Some 1, opt_autoStart = Some False\<rparr>)) \<and>
   running (start (run [Add 0 (Some 0), Add 1 (Some 0)]
      (constructor \<lparr>opt_concurrency = Some 1, opt_autoStart = Some False\<rparr>))) = 1"
proof -
  let ?s = "run [Add 0 (Some 0), Add 1 (Some 0)]
      (constructor \<lparr>opt_concurrency = Some 1, opt_autoStart = Some False\<rparr>)"
  have r: "running (start ?s) = 1" and c: "concurrency ?s = 1"
    by (simp_all add: model_defs)
  then have "concurrency ?s \<le> running (start ?s) \<or> queue (start ?s) = []"
    by simp
  with start_twice [of ?s] have "start (start ?s) = start ?s"
    by blast
  with r show ?thesis by blast
qed

section \<open>Construction\<close>

text \<open>
  Against claim C8. Constructing a queue with the limit 0 gives the queue of the default
  options, with limit 1. Constructing it with the limit -3 gives a queue with limit -3,
  which accepts a task and never starts it.
\<close>

theorem constructor_accepts_counterexample:
  "constructor \<lparr>opt_concurrency = Some 0, opt_autoStart = None\<rparr> =
     constructor \<lparr>opt_concurrency = None, opt_autoStart = None\<rparr> \<and>
   concurrency (constructor \<lparr>opt_concurrency = Some 0, opt_autoStart = None\<rparr>) = 1 \<and>
   concurrency (constructor \<lparr>opt_concurrency = Some (- 3), opt_autoStart = None\<rparr>) = - 3 \<and>
   queue (run [Add 0 None, Start] (constructor \<lparr>opt_concurrency = Some (- 3), opt_autoStart = None\<rparr>)) =
     [\<lparr>task = 0, priority = None\<rparr>] \<and>
   started (run [Add 0 None, Start] (constructor \<lparr>opt_concurrency = Some (- 3), opt_autoStart = None\<rparr>)) = []"
  by (simp add: model_defs)

text \<open>
  Claim C8, amended. Construction always yields a queue: with no limit given the limit
  is 1, a limit of 0 is replaced by 1 and every other number, negative ones included, is
  kept as the limit. The new queue has nothing running, nothing pending and is not
  paused; it starts tasks by itself unless \<^verbatim>\<open>autoStart\<close> is \<^verbatim>\<open>false\<close>.
\<close>

theorem constructor_limit:
  "concurrency (constructor \<lparr>opt_concurrency = None, opt_autoStart = a\<rparr>) = 1 \<and>
   concurrency (constructor \<lparr>opt_concurrency = Some c, opt_autoStart = a\<rparr>) =
     (if c = 0 then 1 else c) \<and>
   running (constructor opts) = 0 \<and> queue (constructor opts) = [] \<and>
   \<not> paused (constructor opts) \<and>
   autoStart (constructor opts) = (opt_autoStart opts \<noteq> Some False)"
  by (simp add: constructor_def)

section \<open>Bounds of the counter and the idle check\<close>

lemma step_upper_bound:
  assumes "running s \<le> max 0 (concurrency s)"
  shows "running (step ev s) \<le> max 0 (concurrency (step ev s)) \<and>
         concurrency (step ev s) = concurrency s"
proof -
  have p: "running (process u) \<le> max 0 (concurrency u) \<and> concurrency (process u) = concurrency u"
    if "running u \<le> max 0 (concurrency u)" for u
    using that by (auto simp: process_def split: option.split)
  show ?thesis
  proof (cases ev)
    case (Add t p')
    then show ?thesis using assms p [of "insertWithPriority \<lparr>task = t, priority = p'\<rparr> s"]
      by (simp add: add_def Let_def)
  next
    case (AddThrowing t p' x)
    then show ?thesis
      using assms
        p [of "insertWithPriority \<lparr>task = t, priority = p'\<rparr> (s\<lparr>throwing := (throwing s)(t \<mapsto> x)\<rparr>)"]
      by (simp add: add_def Let_def)
  next
    case Start
    then show ?thesis using assms p [of "s\<lparr>paused := False\<rparr>"] by (simp add: start_def)
  next
    case Pause
    then show ?thesis using assms by (simp add: pause_def)
  next
    case Clear
    then show ?thesis using assms by (simp add: clear_def)
  next
    case (OnEmpty cb)
    then show ?thesis using assms by (simp add: onEmpty_def)
  next
    case (Settle t r)
    then show ?thesis using assms by (simp add: settle_def)
  next
    case Tick
    show ?thesis
    proof (cases "jobs s")
      case Nil
      then show ?thesis using assms by (simp add: Tick tick_Nil)
    next
      case (Cons j js)
      obtain t out where j: "j = (t, out)" by (cases j)
      have "running (checkEmpty (s\<lparr>jobs := js, running := running s - 1\<rparr>))
            \<le> max 0 (concurrency (checkEmpty (s\<lparr>jobs := js, running := running s - 1\<rparr>)))"
        using assms by simp
      from p [OF this] show ?thesis
        using Cons j by (simp add: Tick tick_Cons)
    qed
  qed
qed

lemma running_upper_bound:
  "running (run evs (constructor opts)) \<le> max 0 (concurrency (constructor opts))"
proof -
  have "running (run evs s) \<le> max 0 (concurrency s) \<and> concurrency (run evs s) = concurrency s"
    if "running s \<le> max 0 (concurrency s)" for s
    using that
  proof (induction evs arbitrary: s)
    case Nil
    then show ?case by (simp add: run_def)
  next
    case (Cons ev evs)
    note su = step_upper_bound [OF Cons.prems, of ev]
    have a: "running (step ev s) \<le> max 0 (concurrency (step ev s))"
      using su by (rule conjunct1)
    have b: "concurrency (step ev s) = concurrency s"
      using su by (rule conjunct2)
    from Cons.IH [OF a] b show ?case by (simp add: run_def)
  qed
  moreover have "running (constructor opts) \<le> max 0 (concurrency (constructor opts))"
    by (simp add: constructor_def)
  ultimately show ?thesis by blast
qed

lemma notified_step:
  "notified (step ev s) =
     notified s @
     (if ev = Tick \<and> jobs s \<noteq> [] \<and> queue s = [] \<and> running s - 1 = 0
      then emptyCallbacks s else [])"
proof (cases ev)
  case (Add t p)
  then show ?thesis by (simp add: add_def Let_def)
next
  case (AddThrowing t p x)
  then show ?thesis by (simp add: add_def Let_def)
next
  case Start
  then show ?thesis by (simp add: start_def)
next
  case Pause
  then show ?thesis by (simp add: pause_def)
next
  case Clear
  then show ?thesis by (simp add: clear_def)
next
  case (OnEmpty cb)
  then show ?thesis by (simp add: onEmpty_def)
next
  case (Settle t r)
  then show ?thesis by (simp add: settle_def)
next
  case Tick
  show ?thesis
  proof (cases "jobs s")
    case Nil
    then show ?thesis by (simp add: Tick tick_Nil)
  next
    case (Cons j js)
    obtain t out where j: "j = (t, out)" by (cases j)
    show ?thesis using Cons j by (simp add: Tick tick_Cons checkEmpty_def)
  qed
qed

section \<open>The counter of running tasks\<close>

text \<open>
  Claim C1 fails on the code. On a queue with the default limit 1, a task is submitted and
  starts, a second one is submitted and stays pending, and the queue is cleared. The
  reaction of the cleared task decrements the counter although the task never ran; when
  the first task has resolved and its reaction has run, the counter is -1. If instead a
  third task is submitted after the reaction of the cleared one, it starts while the
  first task is still executing: two tasks execute with limit 1.
\<close>

theorem running_counter_negative:
  "concurrency (constructor \<lparr>opt_concurrency = None, opt_autoStart = None\<rparr>) = 1 \<and>
   running (run [Add 0 None, Add 1 None, Clear, Tick, Settle 0 (Resolves Undefined), Tick]
     (constructor \<lparr>opt_concurrency = None, opt_autoStart = None\<rparr>)) = - 1 \<and>
   executing (run [Add 0 None, Add 1 None, Clear, Tick, Add 2 None]
     (constructor \<lparr>opt_concurrency = None, opt_autoStart = None\<rparr>)) = [0, 2]"
  by (simp add: model_defs)

section \<open>A task submitted without a priority\<close>

text \<open>
  Claim C3 fails on the code. One task is executing on a queue with limit 1. A task of
  priority 5 and then a task without a priority are submitted: when the slot frees, the
  task without a priority starts, where a task of priority 0 in its place lets the task
  of priority 5 start. Two tasks submitted without a priority start in the reverse of
  their submission order, where two tasks of priority 0 start in submission order.
\<close>

theorem missing_priority_is_not_zero:
  "started (run [Add 9 (Some 0), Add 0 (Some 5), Add 1 None, Settle 9 (Resolves Undefined), Tick]
     (constructor \<lparr>opt_concurrency = None, opt_autoStart = None\<rparr>)) = [9, 1] \<and>
   started (run [Add 9 (Some 0), Add 0 (Some 5), Add 1 (Some 0), Settle 9 (Resolves Undefined), Tick]
     (constructor \<lparr>opt_concurrency = None, opt_autoStart = None\<rparr>)) = [9, 0] \<and>
   started (run [Add 9 (Some 0), Add 1 None, Add 2 None, Settle 9 (Resolves Undefined), Tick]
     (constructor \<lparr>opt_concurrency = None, opt_autoStart = None\<rparr>)) = [9, 2] \<and>
   started (run [Add 9 (Some 0), Add 1 (Some 0), Add 2 (Some 0), Settle 9 (Resolves Undefined), Tick]
     (constructor \<lparr>opt_concurrency = None, opt_autoStart = None\<rparr>)) = [9, 1]"
  by (simp add: model_defs)

section \<open>The idle notification\<close>

text \<open>
  Claim C5 fails on the code. With a callback registered, a task executing and a second
  task pending on a queue with limit 1, \<^verbatim>\<open>clear()\<close> is called. The reaction of the
  cleared task brings the counter to 0 with an empty pending list, and the callback is
  called while the first task is still executing. When that task settles later the
  counter goes to -1 and the callback is not called.
\<close>

theorem idle_fires_while_task_executes:
  "notified (run [OnEmpty 9, Add 0 None, Add 1 None, Clear, Tick]
     (constructor \<lparr>opt_concurrency = None, opt_autoStart = None\<rparr>)) = [9] \<and>
   executing (run [OnEmpty 9, Add 0 None, Add 1 None, Clear, Tick]
     (constructor \<lparr>opt_concurrency = None, opt_autoStart = None\<rparr>)) = [0] \<and>
   notified (run [OnEmpty 9, Add 0 None, Add 1 None, Clear, Tick, Settle 0 (Resolves Undefined), Tick]
     (constructor \<lparr>opt_concurrency = None, opt_autoStart = None\<rparr>)) = [9]"
  by (simp add: model_defs)

section \<open>The counter after clear\<close>

text \<open>
  Claim C6 fails on the code. One task is executing and one is pending, the counter is 1.
  After \<^verbatim>\<open>clear()\<close> and the reaction of the cleared task, the counter is 0 although the
  first task is still executing.
\<close>

theorem clear_changes_running:
  "running (run [Add 0 None, Add 1 None]
     (constructor \<lparr>opt_concurrency = None, opt_autoStart = None\<rparr>)) = 1 \<and>
   executing (run [Add 0 None, Add 1 None]
     (constructor \<lparr>opt_concurrency = None, opt_autoStart = None\<rparr>)) = [0] \<and>
   running (drain (clear (run [Add 0 None, Add 1 None]
     (constructor \<lparr>opt_concurrency = None, opt_autoStart = None\<rparr>)))) = 0 \<and>
   executing (drain (clear (run [Add 0 None, Add 1 None]
     (constructor \<lparr>opt_concurrency = None, opt_autoStart = None\<rparr>)))) = [0]"
  by (simp add: model_defs drain_def)

section \<open>Ties between equal priorities\<close>

text \<open>
  When every priority in the pending list is a number, the list is sorted, and a task
  submitted with a numeric priority goes in front of every pending entry of at least its
  priority: it leaves the list after them all, after the earlier tasks of its own priority
  in particular. A queue that only ever received numeric priorities is in that case.
\<close>

lemma takeWhile_filter_sorted:
  assumes "sorted_wrt R xs" and "\<And>a b. R a b \<Longrightarrow> P b \<Longrightarrow> P a"
  shows "takeWhile P xs = filter P xs \<and> dropWhile P xs = filter (\<lambda>x. \<not> P x) xs"
  using assms(1)
proof (induction xs)
  case Nil
  show ?case by simp
next
  case (Cons x xs)
  then have ih: "takeWhile P xs = filter P xs" "dropWhile P xs = filter (\<lambda>x. \<not> P x) xs"
    and le: "\<forall>y\<in>set xs. R x y"
    by simp_all
  show ?case
  proof (cases "P x")
    case True
    then show ?thesis using ih by simp
  next
    case False
    have "\<forall>y\<in>set xs. \<not> P y"
      using le False assms(2) by blast
    then have "filter P xs = []" "filter (\<lambda>x. \<not> P x) xs = xs"
      by (simp_all add: filter_empty_conv filter_id_conv)
    then show ?thesis using False by simp
  qed
qed

lemma js_ge_trans: "js_ge a b \<Longrightarrow> js_ge b c \<Longrightarrow> js_ge a c"
  by (cases a; cases b; cases c) simp_all

lemma queue_insert_numeric:
  assumes "numeric_sorted (queue s)"
  shows "queue (insertWithPriority \<lparr>task = t, priority = Some p\<rparr> s) =
           filter (\<lambda>x. \<not> js_ge (priority x) (Some p)) (queue s) @
           \<lparr>task = t, priority = Some p\<rparr> #
           filter (\<lambda>x. js_ge (priority x) (Some p)) (queue s)"
proof -
  let ?P = "\<lambda>x. js_ge (priority x) (Some p)"
  have "sorted_wrt (\<lambda>a b. js_ge (priority a) (priority b)) (rev (queue s))"
    using assms by (simp add: numeric_sorted_def sorted_wrt_rev)
  from takeWhile_filter_sorted [OF this, of ?P]
  have "takeWhile ?P (rev (queue s)) = filter ?P (rev (queue s))"
    and "dropWhile ?P (rev (queue s)) = filter (\<lambda>x. \<not> ?P x) (rev (queue s))"
    using js_ge_trans by blast+
  then show ?thesis
    by (simp add: queue_insertWithPriority rev_filter)
qed

lemma numeric_sorted_insert:
  assumes "numeric_sorted (queue s)"
  shows "numeric_sorted (queue (insertWithPriority \<lparr>task = t, priority = Some p\<rparr> s))"
proof -
  let ?P = "\<lambda>x. js_ge (priority x) (Some p)"
  let ?R = "\<lambda>a b. js_ge (priority b) (priority a)"
  have num: "\<forall>x\<in>set (queue s). priority x \<noteq> None"
    and srt: "sorted_wrt ?R (queue s)"
    using assms by (simp_all add: numeric_sorted_def list_all_iff)
  have lo: "?R x \<lparr>task = t, priority = Some p\<rparr>" if "x \<in> set (queue s)" "\<not> ?P x" for x
    using that num by (cases "priority x") auto
  have cross: "?R x y" if "x \<in> set (queue s)" "\<not> ?P x" "?P y" for x y
    using that num by (cases "priority x"; cases "priority y") auto
  have "sorted_wrt ?R (filter (\<lambda>x. \<not> ?P x) (queue s) @
           \<lparr>task = t, priority = Some p\<rparr> # filter ?P (queue s))"
    using srt lo cross by (auto simp: sorted_wrt_append sorted_wrt_filter)
  moreover have "list_all (\<lambda>x. priority x \<noteq> None) (filter (\<lambda>x. \<not> ?P x) (queue s) @
           \<lparr>task = t, priority = Some p\<rparr> # filter ?P (queue s))"
    using num by (auto simp: list_all_iff)
  ultimately show ?thesis
    by (simp add: queue_insert_numeric [OF assms] numeric_sorted_def)
qed

lemma numeric_sorted_butlast: "numeric_sorted q \<Longrightarrow> numeric_sorted (butlast q)"
  by (auto simp: numeric_sorted_def list_all_iff butlast_conv_take sorted_wrt_take
      dest: in_set_takeD)

lemma numeric_sorted_process:
  "numeric_sorted (queue s) \<Longrightarrow> numeric_sorted (queue (process s))"
  using process_cases [of s] by (auto simp: numeric_sorted_butlast)

lemma numeric_sorted_step:
  assumes "numeric_event ev" and "numeric_sorted (queue s)"
  shows "numeric_sorted (queue (step ev s))"
proof (cases ev)
  case (Add t p)
  with assms(1) obtain n where p: "p = Some n" by auto
  show ?thesis
    using numeric_sorted_insert [OF assms(2), of t n]
      numeric_sorted_process [of "insertWithPriority \<lparr>task = t, priority = Some n\<rparr> s"]
    by (simp add: Add p add_def Let_def)
next
  case (AddThrowing t p x)
  with assms(1) obtain n where p: "p = Some n" by auto
  let ?s = "s\<lparr>throwing := (throwing s)(t \<mapsto> x)\<rparr>"
  have "numeric_sorted (queue ?s)" using assms(2) by simp
  from numeric_sorted_insert [OF this, of t n]
  show ?thesis
    using numeric_sorted_process [of "insertWithPriority \<lparr>task = t, priority = Some n\<rparr> ?s"]
    by (simp add: AddThrowing p add_def Let_def)
next
  case Start
  show ?thesis
    using assms(2) numeric_sorted_process [of "s\<lparr>paused := False\<rparr>"]
    by (simp add: Start start_def)
next
  case Pause
  show ?thesis using assms(2) by (simp add: Pause pause_def)
next
  case Clear
  show ?thesis by (simp add: Clear clear_fields numeric_sorted_def)
next
  case (OnEmpty cb)
  show ?thesis using assms(2) by (simp add: OnEmpty onEmpty_def)
next
  case (Settle t r)
  show ?thesis using assms(2) by (simp add: Settle settle_def)
next
  case Tick
  show ?thesis
  proof (cases "jobs s")
    case Nil
    then show ?thesis using assms(2) by (simp add: Tick tick_Nil)
  next
    case (Cons j js)
    obtain t out where j: "j = (t, out)" by (cases j)
    show ?thesis
      using assms(2) numeric_sorted_process [of "checkEmpty (s\<lparr>jobs := js, running := running s - 1\<rparr>)"]
      by (simp add: Tick tick_Cons [OF Cons [unfolded j]])
  qed
qed

lemma numeric_sorted_run:
  assumes "list_all numeric_event evs"
  shows "numeric_sorted (queue (run evs (constructor opts)))"
proof -
  have "numeric_sorted (queue (run evs s))"
    if "numeric_sorted (queue s)" for s
    using assms that
  proof (induction evs arbitrary: s)
    case Nil
    then show ?case by (simp add: run_def)
  next
    case (Cons ev evs)
    from Cons.prems have "numeric_event ev" "list_all numeric_event evs" by simp_all
    with Cons.IH [of "step ev s"] numeric_sorted_step [of ev s] Cons.prems(2)
    show ?case by (simp add: run_def)
  qed
  moreover have "numeric_sorted (queue (constructor opts))"
    by (simp add: constructor_def numeric_sorted_def)
  ultimately show ?thesis by blast
qed

text \<open>
  Claim C4 fails on the code. One task is executing on a queue with limit 1. A task of
  priority 1, a task without a priority and a second task of priority 1 are submitted in
  this order. When the slot frees, the second task of priority 1 starts, then the task
  without a priority, then the first task of priority 1: the tie is reordered. With the
  priority 0 given to the task in the middle, the two tasks of priority 1 start in their
  submission order.
\<close>

theorem equal_priority_reordered:
  "started (run [Add 0 (Some 0), Add 1 (Some 1), Add 9 None, Add 2 (Some 1),
                 Settle 0 (Resolves Undefined), Tick, Settle 2 (Resolves Undefined), Tick,
                 Settle 9 (Resolves Undefined), Tick]
     (constructor \<lparr>opt_concurrency = None, opt_autoStart = None\<rparr>)) = [0, 2, 9, 1] \<and>
   started (run [Add 0 (Some 0), Add 1 (Some 1), Add 9 (Some 0), Add 2 (Some 1),
                 Settle 0 (Resolves Undefined), Tick, Settle 1 (Resolves Undefined), Tick,
                 Settle 2 (Resolves Undefined), Tick]
     (constructor \<lparr>opt_concurrency = None, opt_autoStart = None\<rparr>)) = [0, 1, 2, 9]"
  by (simp add: model_defs)

section \<open>A task that fails\<close>






end
